theory Spec2Isabelle
  imports Complex_Main "HOL-Library.Product_Lexorder" "HOL-Library.List_Lexorder"
begin

section \<open>Lab 3: the warehouse AGV model (warehouse\_agv\_model.py)\<close>

subsection \<open>Cells, agent classes and the grid\<close>

type_synonym cell = "int \<times> int"

text \<open>The five agent classes of the program; \<open>isinstance\<close> tests become tests on this tag.\<close>

datatype kind = WallAgent | ShelfAgent | ChargingStationAgent | DropoffPointAgent | AGVAgent

text \<open>
  \<open>mesa.space.MultiGrid\<close>: a width, a height, and for every cell the list of agents standing
  on it. The program only ever asks for the classes of the agents of a cell, so a cell holds
  the list of their classes.
\<close>

record grid =
  gwidth :: int
  gheight :: int
  cells :: "cell \<Rightarrow> kind list"

definition in_bounds :: "grid \<Rightarrow> cell \<Rightarrow> bool" where
  "in_bounds g c \<longleftrightarrow> 0 \<le> fst c \<and> fst c < gwidth g \<and> 0 \<le> snd c \<and> snd c < gheight g"

subsection \<open>A* pathfinding\<close>

definition heuristic :: "cell \<Rightarrow> cell \<Rightarrow> int" where
  "heuristic pos1 pos2 = \<bar>fst pos1 - fst pos2\<bar> + \<bar>snd pos1 - snd pos2\<bar>"

text \<open>
  A frontier entry is the tuple \<open>(f_score, counter, position, path)\<close>. Python compares
  tuples and lists lexicographically, which is the order of \<open>Product_Lexorder\<close> and
  \<open>List_Lexorder\<close>; \<open>PriorityQueue.get\<close> removes the least entry.
\<close>

type_synonym entry = "int \<times> nat \<times> cell \<times> cell list"

definition e_pos :: "entry \<Rightarrow> cell" where
  "e_pos e = fst (snd (snd e))"

definition e_path :: "entry \<Rightarrow> cell list" where
  "e_path e = snd (snd (snd e))"

definition e_counter :: "entry \<Rightarrow> nat" where
  "e_counter e = fst (snd e)"

definition neighbors :: "cell \<Rightarrow> cell list" where
  "neighbors c = (case c of (x, y) \<Rightarrow> [(x + 1, y), (x - 1, y), (x, y + 1), (x, y - 1)])"

definition is_obstacle :: "grid \<Rightarrow> kind list \<Rightarrow> cell \<Rightarrow> bool" where
  "is_obstacle g obstacles c \<longleftrightarrow> (\<exists>agent \<in> set (cells g c). agent \<in> set obstacles)"

text \<open>
  One pass of the body of the \<open>for next_pos in neighbors\<close> loop, on the pair
  (frontier, counter). The bounds test comes first, so the grid is only read inside it.
\<close>

definition push_neighbor ::
  "grid \<Rightarrow> cell \<Rightarrow> kind list \<Rightarrow> cell set \<Rightarrow> cell list \<Rightarrow> cell \<Rightarrow> entry list \<times> nat \<Rightarrow> entry list \<times> nat"
where
  "push_neighbor g end obstacles visited path next_pos s =
     (if \<not> in_bounds g next_pos then s
      else if is_obstacle g obstacles next_pos \<or> next_pos \<in> visited then s
      else (fst s @ [(int (length path) + heuristic next_pos end, snd s + 1, next_pos,
                      path @ [next_pos])],
            snd s + 1))"

definition expand ::
  "grid \<Rightarrow> cell \<Rightarrow> kind list \<Rightarrow> cell set \<Rightarrow> cell \<Rightarrow> cell list \<Rightarrow> entry list \<times> nat \<Rightarrow> entry list \<times> nat"
where
  "expand g end obstacles visited current path s =
     fold (push_neighbor g end obstacles visited path) (neighbors current) s"

definition grid_cells :: "grid \<Rightarrow> cell set" where
  "grid_cells g = {0..<gwidth g} \<times> {0..<gheight g}"

text \<open>
  The \<open>while not frontier.empty()\<close> loop. The frontier is the list of the entries in
  the queue; \<open>get\<close> takes the least one out.
\<close>

function astar_loop ::
  "grid \<Rightarrow> cell \<Rightarrow> kind list \<Rightarrow> entry list \<Rightarrow> cell set \<Rightarrow> nat \<Rightarrow> cell list"
where
  "astar_loop g end obstacles frontier visited counter =
     (if frontier = [] then []
      else if e_pos (Min (set frontier)) = end then e_path (Min (set frontier))
      else if e_pos (Min (set frontier)) \<in> visited
        then astar_loop g end obstacles (remove1 (Min (set frontier)) frontier) visited counter
      else astar_loop g end obstacles
             (fst (expand g end obstacles (insert (e_pos (Min (set frontier))) visited)
                     (e_pos (Min (set frontier))) (e_path (Min (set frontier)))
                     (remove1 (Min (set frontier)) frontier, counter)))
             (insert (e_pos (Min (set frontier))) visited)
             (snd (expand g end obstacles (insert (e_pos (Min (set frontier))) visited)
                     (e_pos (Min (set frontier))) (e_path (Min (set frontier)))
                     (remove1 (Min (set frontier)) frontier, counter))))"
  by pat_completeness auto
termination
proof (relation "measures [\<lambda>(g, end, obstacles, frontier, visited, counter).
                               card ((grid_cells g \<union> e_pos ` set frontier) - visited),
                           \<lambda>(g, end, obstacles, frontier, visited, counter). length frontier]",
       goal_cases)
  case 1
  show ?case by simp
next
  case (2 g "end" obstacles frontier visited counter)
  let ?m = "Min (set frontier)"
  from 2 have mem: "?m \<in> set frontier" by (simp add: Min_in)
  have fin: "finite ((grid_cells g \<union> e_pos ` set frontier) - visited)"
    by (simp add: grid_cells_def)
  have "(grid_cells g \<union> e_pos ` set (remove1 ?m frontier)) - visited
          \<subseteq> (grid_cells g \<union> e_pos ` set frontier) - visited"
    using set_remove1_subset [of ?m frontier] by blast
  then have "card ((grid_cells g \<union> e_pos ` set (remove1 ?m frontier)) - visited)
          \<le> card ((grid_cells g \<union> e_pos ` set frontier) - visited)"
    using fin by (rule card_mono [rotated])
  moreover have "length (remove1 ?m frontier) < length frontier"
    using mem by (simp add: length_remove1) (cases frontier, auto)
  ultimately show ?case by auto
next
  case (3 g "end" obstacles frontier visited counter)
  let ?m = "Min (set frontier)"
  let ?vis = "insert (e_pos ?m) visited"
  let ?s = "expand g end obstacles ?vis (e_pos ?m) (e_path ?m) (remove1 ?m frontier, counter)"
  from 3 have mem: "?m \<in> set frontier" by (simp add: Min_in)
  have fin: "finite ((grid_cells g \<union> e_pos ` set frontier) - visited)"
    by (simp add: grid_cells_def)
  have step: "e_pos ` set (fst (push_neighbor g end obstacles ?vis (e_path ?m) n s))
                \<subseteq> grid_cells g \<union> e_pos ` set (fst s)" for n s
    by (cases n) (auto simp: push_neighbor_def e_pos_def in_bounds_def grid_cells_def)
  have "e_pos ` set (fst (fold (push_neighbor g end obstacles ?vis (e_path ?m)) ns s))
          \<subseteq> grid_cells g \<union> e_pos ` set (fst s)" for ns s
  proof (induction ns arbitrary: s)
    case Nil
    show ?case by simp
  next
    case (Cons n ns)
    show ?case using Cons.IH [of "push_neighbor g end obstacles ?vis (e_path ?m) n s"] step [of n s]
      by auto
  qed
  then have "e_pos ` set (fst ?s) \<subseteq> grid_cells g \<union> e_pos ` set (remove1 ?m frontier)"
    unfolding expand_def by (metis fst_conv)
  then have "e_pos ` set (fst ?s) \<subseteq> grid_cells g \<union> e_pos ` set frontier"
    using set_remove1_subset [of ?m frontier] by blast
  then have "(grid_cells g \<union> e_pos ` set (fst ?s)) - ?vis
          \<subseteq> ((grid_cells g \<union> e_pos ` set frontier) - visited) - {e_pos ?m}"
    by blast
  moreover have "e_pos ?m \<in> (grid_cells g \<union> e_pos ` set frontier) - visited"
    using mem 3 by auto
  ultimately have "(grid_cells g \<union> e_pos ` set (fst ?s)) - ?vis
          \<subset> (grid_cells g \<union> e_pos ` set frontier) - visited"
    by blast
  then have "card ((grid_cells g \<union> e_pos ` set (fst ?s)) - ?vis)
          < card ((grid_cells g \<union> e_pos ` set frontier) - visited)"
    using fin by (rule psubset_card_mono [rotated])
  then show ?case by simp
qed

definition astar :: "grid \<Rightarrow> cell \<Rightarrow> cell \<Rightarrow> kind list \<Rightarrow> cell list" where
  "astar g start end obstacles = astar_loop g end obstacles [(0, 0, start, [start])] {} 0"

subsection \<open>Vehicles, tasks and the warehouse model\<close>

datatype agv_state = IDLE | MOVING_TO_PICKUP | DELIVERING | CHARGING | WAITING

text \<open>A task is the dictionary \<open>{'pickup': (x, y), 'dropoff': (x, y)}\<close>.\<close>

record task =
  pickup :: cell
  dropoff :: cell

text \<open>
  The mutable attributes of an \<open>AGVAgent\<close>. The three configuration attributes are set
  once in \<open>__init__\<close> and never written again; they are the constants below. Battery levels
  are Python floats; every value the program forms is a multiple of 0.5 between 0 and 105
  and so exact, and they are modelled as reals.
\<close>

record agv =
  pos :: cell
  battery_level :: real
  state :: agv_state
  task :: "task option"
  path :: "cell list"
  steps_waiting :: nat

definition battery_drain_rate :: real where
  "battery_drain_rate = 0.5"

definition battery_charge_rate :: real where
  "battery_charge_rate = 5.0"

definition low_battery_threshold :: real where
  "low_battery_threshold = 20.0"

datatype error = IndexError | ValueError | OutOfBounds

text \<open>
  The \<open>WarehouseModel\<close>. \<open>model.agents\<close> lists the static agents in creation order
  (\<open>statics\<close>, each with its class and its \<open>pos\<close>) and then the vehicles (\<open>agvs\<close>); a
  vehicle is named by its index in \<open>agvs\<close>. Python's global random generator is the
  list of the numbers it will return next; a run of the program draws finitely many.
\<close>

record model =
  width :: int
  height :: int
  statics :: "(kind \<times> cell) list"
  agvs :: "agv list"
  available_tasks :: "task list"
  completed_tasks :: nat
  random_numbers :: "nat list"

text \<open>
  Mesa keeps \<open>agent in grid[x][y]\<close> and \<open>agent.pos == (x, y)\<close> equivalent:
  \<open>place_agent\<close> and \<open>move_agent\<close> write both, and the program assigns \<open>pos\<close> only the
  value the grid has just been given. The grid of a model is therefore read off the
  positions of its agents.
\<close>

definition cell_list :: "model \<Rightarrow> cell \<Rightarrow> kind list" where
  "cell_list m c = map fst (filter (\<lambda>a. snd a = c) (statics m))
                   @ map (\<lambda>a. AGVAgent) (filter (\<lambda>a. pos a = c) (agvs m))"

definition grid_of :: "model \<Rightarrow> grid" where
  "grid_of m = \<lparr>gwidth = width m, gheight = height m, cells = cell_list m\<rparr>"

text \<open>
  \<open>grid._grid[x][y]\<close> is Python list indexing: an index from \<open>-n\<close> up to \<open>-1\<close> counts
  from the end, anything else outside \<open>0..n-1\<close> raises IndexError.
\<close>

definition py_index :: "int \<Rightarrow> int \<Rightarrow> error + int" where
  "py_index n i = (if 0 \<le> i \<and> i < n then Inr i
                   else if - n \<le> i \<and> i < 0 then Inr (i + n)
                   else Inl IndexError)"

definition get_cell_list_contents :: "grid \<Rightarrow> cell \<Rightarrow> error + kind list" where
  "get_cell_list_contents g c =
     (case py_index (gwidth g) (fst c) of
        Inl e \<Rightarrow> Inl e
      | Inr x \<Rightarrow> (case py_index (gheight g) (snd c) of
                    Inl e \<Rightarrow> Inl e
                  | Inr y \<Rightarrow> Inr (cells g (x, y))))"

definition set_agv :: "nat \<Rightarrow> agv \<Rightarrow> model \<Rightarrow> model" where
  "set_agv i a m = m\<lparr>agvs := (agvs m)[i := a]\<rparr>"

text \<open>
  \<open>MultiGrid.move_agent\<close>: \<open>torus_adj\<close> raises for a target outside the grid; then
  \<open>remove_agent\<close> takes the agent out of the cell its \<open>pos\<close> names (failing if it is not
  there) and \<open>place_agent\<close> puts it on the target and sets \<open>pos\<close>.
\<close>

definition move_agent :: "nat \<Rightarrow> cell \<Rightarrow> model \<Rightarrow> error + model" where
  "move_agent i new_pos m =
     (if \<not> in_bounds (grid_of m) new_pos then Inl OutOfBounds
      else (case get_cell_list_contents (grid_of m) (pos (agvs m ! i)) of
              Inl e \<Rightarrow> Inl e
            | Inr old_cell \<Rightarrow>
                if \<not> in_bounds (grid_of m) (pos (agvs m ! i)) then Inl ValueError
                else Inr (set_agv i ((agvs m ! i)\<lparr>pos := new_pos\<rparr>) m)))"

subsection \<open>The task dispatcher\<close>

text \<open>
  \<open>random.choice(xs)\<close> returns \<open>xs[k]\<close> for a drawn \<open>k\<close> below \<open>len(xs)\<close>; every
  call site has checked that \<open>xs\<close> is not empty.
\<close>

definition random_choice :: "'a list \<Rightarrow> model \<Rightarrow> 'a \<times> model" where
  "random_choice xs m =
     (case random_numbers m of
        [] \<Rightarrow> (xs ! 0, m)
      | r # rs \<Rightarrow> (xs ! (r mod length xs), m\<lparr>random_numbers := rs\<rparr>))"

definition positions_of :: "kind \<Rightarrow> model \<Rightarrow> cell list" where
  "positions_of k m = map snd (filter (\<lambda>a. fst a = k) (statics m))"

fun generate_loop :: "nat \<Rightarrow> cell list \<Rightarrow> cell list \<Rightarrow> model \<Rightarrow> model" where
  "generate_loop 0 shelf_positions dropoff_positions m = m"
| "generate_loop (Suc n) shelf_positions dropoff_positions m =
     (let (p, m1) = random_choice shelf_positions m;
          (d, m2) = random_choice dropoff_positions m1
      in generate_loop n shelf_positions dropoff_positions
           (m2\<lparr>available_tasks := available_tasks m2 @ [\<lparr>pickup = p, dropoff = d\<rparr>]\<rparr>))"

definition generate_tasks :: "nat \<Rightarrow> model \<Rightarrow> model" where
  "generate_tasks num_tasks m =
     (let shelf_positions = positions_of ShelfAgent m;
          dropoff_positions = positions_of DropoffPointAgent m
      in if shelf_positions = [] \<or> dropoff_positions = [] then m
         else generate_loop num_tasks shelf_positions dropoff_positions m)"

definition assign_task_to_agv :: "model \<Rightarrow> task option \<times> model" where
  "assign_task_to_agv m =
     (case available_tasks m of
        [] \<Rightarrow> (None, m)
      | t # rest \<Rightarrow>
          (Some t,
           if length rest < 10 then generate_tasks 5 (m\<lparr>available_tasks := rest\<rparr>)
           else m\<lparr>available_tasks := rest\<rparr>))"

subsection \<open>The vehicle's state machine\<close>

definition calculate_path_to :: "nat \<Rightarrow> cell \<Rightarrow> model \<Rightarrow> model" where
  "calculate_path_to i destination m =
     (let self = agvs m ! i;
          p = astar (grid_of m) (pos self) destination [WallAgent, ShelfAgent]
      in if p = [] then set_agv i (self\<lparr>path := p, state := IDLE, task := None\<rparr>) m
         else set_agv i (self\<lparr>path := p\<rparr>) m)"

definition handle_idle_state :: "nat \<Rightarrow> model \<Rightarrow> model" where
  "handle_idle_state i m =
     (case assign_task_to_agv m of
        (None, m1) \<Rightarrow> m1
      | (Some t, m1) \<Rightarrow>
          calculate_path_to i (pickup t)
            (set_agv i ((agvs m1 ! i)\<lparr>task := Some t, state := MOVING_TO_PICKUP\<rparr>) m1))"

definition follow_path :: "nat \<Rightarrow> model \<Rightarrow> error + model" where
  "follow_path i m =
     (let self = agvs m ! i in
      case path self of
        [] \<Rightarrow> Inr m
      | next_pos # rest \<Rightarrow>
          (case get_cell_list_contents (grid_of m) next_pos of
             Inl e \<Rightarrow> Inl e
           | Inr cell_contents \<Rightarrow>
               if filter (\<lambda>agent. agent = AGVAgent) cell_contents \<noteq> [] then
                 Inr (set_agv i (self\<lparr>state := WAITING,
                                      steps_waiting := steps_waiting self + 1\<rparr>) m)
               else
                 (let m1 = (if state self = WAITING
                            then set_agv i (self\<lparr>state := (if task self \<noteq> None
                                                               then MOVING_TO_PICKUP
                                                               else DELIVERING)\<rparr>) m
                            else m)
                  in case move_agent i next_pos m1 of
                       Inl e \<Rightarrow> Inl e
                     | Inr m2 \<Rightarrow>
                         Inr (set_agv i ((agvs m2 ! i)
                                \<lparr>pos := next_pos,
                                 path := rest,
                                 battery_level :=
                                   max 0 (battery_level (agvs m2 ! i) - battery_drain_rate),
                                 steps_waiting := 0\<rparr>) m2))))"

text \<open>
  \<open>min(charging_stations, key=...)\<close> returns the first station of least distance, as
  \<open>arg_min_list\<close> does.
\<close>

definition nearest_station :: "nat \<Rightarrow> model \<Rightarrow> cell" where
  "nearest_station i m =
     arg_min_list (\<lambda>s. heuristic (pos (agvs m ! i)) s) (positions_of ChargingStationAgent m)"

definition start_charging :: "nat \<Rightarrow> model \<Rightarrow> model" where
  "start_charging i m =
     (if positions_of ChargingStationAgent m = [] then m
      else calculate_path_to i (nearest_station i m)
             (set_agv i ((agvs m ! i)\<lparr>state := CHARGING\<rparr>) m))"

definition charge_battery :: "nat \<Rightarrow> model \<Rightarrow> error + model" where
  "charge_battery i m =
     (let self = agvs m ! i in
      case get_cell_list_contents (grid_of m) (pos self) of
        Inl e \<Rightarrow> Inl e
      | Inr cell_contents \<Rightarrow>
          if ChargingStationAgent \<in> set cell_contents then
            (let b = min 100 (battery_level self + battery_charge_rate) in
             if b \<ge> 100
             then Inr (set_agv i (self\<lparr>battery_level := b, state := IDLE, task := None\<rparr>) m)
             else Inr (set_agv i (self\<lparr>battery_level := b\<rparr>) m))
          else follow_path i m)"

definition complete_task :: "nat \<Rightarrow> model \<Rightarrow> model" where
  "complete_task i m = set_agv i ((agvs m ! i)\<lparr>task := None, state := IDLE\<rparr>) m"

text \<open>\<open>AGVAgent.step\<close>, for the vehicle of index \<open>i\<close>.\<close>

definition agv_step :: "nat \<Rightarrow> model \<Rightarrow> error + model" where
  "agv_step i m =
     (let self = agvs m ! i in
      if battery_level self < low_battery_threshold \<and> state self \<noteq> CHARGING
      then Inr (start_charging i m)
      else (case state self of
              IDLE \<Rightarrow> Inr (handle_idle_state i m)
            | MOVING_TO_PICKUP \<Rightarrow>
                (case follow_path i m of
                   Inl e \<Rightarrow> Inl e
                 | Inr m1 \<Rightarrow>
                     (case task (agvs m1 ! i) of
                        Some t \<Rightarrow>
                          if path (agvs m1 ! i) = []
                          then Inr (calculate_path_to i (dropoff t)
                                      (set_agv i ((agvs m1 ! i)\<lparr>state := DELIVERING\<rparr>) m1))
                          else Inr m1
                      | None \<Rightarrow> Inr m1))
            | DELIVERING \<Rightarrow>
                (case follow_path i m of
                   Inl e \<Rightarrow> Inl e
                 | Inr m1 \<Rightarrow>
                     if path (agvs m1 ! i) = [] then Inr (complete_task i m1) else Inr m1)
            | CHARGING \<Rightarrow> charge_battery i m
            | WAITING \<Rightarrow> Inr m))"

subsection \<open>The tick scheduler and the twin hooks\<close>

text \<open>
  \<open>WarehouseModel.step\<close> runs \<open>step\<close> on every vehicle once, in a shuffled order; the
  order drawn is the argument \<open>order\<close>. An exception in one vehicle ends the tick.
\<close>

fun shuffle_do :: "nat list \<Rightarrow> model \<Rightarrow> error + model" where
  "shuffle_do [] m = Inr m"
| "shuffle_do (i # order) m =
     (case agv_step i m of Inl e \<Rightarrow> Inl e | Inr m1 \<Rightarrow> shuffle_do order m1)"

definition step :: "nat list \<Rightarrow> model \<Rightarrow> error + model" where
  "step order m = shuffle_do order m"

definition override_position :: "nat \<Rightarrow> cell \<Rightarrow> model \<Rightarrow> error + model" where
  "override_position i new_pos m =
     (case move_agent i new_pos m of
        Inl e \<Rightarrow> Inl e
      | Inr m1 \<Rightarrow> Inr (set_agv i ((agvs m1 ! i)\<lparr>pos := new_pos\<rparr>) m1))"

definition assign_external_task :: "nat \<Rightarrow> task \<Rightarrow> model \<Rightarrow> model" where
  "assign_external_task i t m =
     (if battery_level (agvs m ! i) > 10
      then calculate_path_to i (pickup t)
             (set_agv i ((agvs m ! i)\<lparr>task := Some t, state := MOVING_TO_PICKUP\<rparr>) m)
      else m)"

subsection \<open>Building the model\<close>

text \<open>The layout literal of \<open>_create_warehouse_layout\<close>, row by row.\<close>

definition warehouse_layout :: "string list" where
  "warehouse_layout =
    [''##############################'',
     ''#                            #'',
     ''#  SSSS  SSSS  SSSS  SSSS    #'',
     ''#  SSSS  SSSS  SSSS  SSSS    #'',
     ''#                          D #'',
     ''#  SSSS  SSSS  SSSS  SSSS    #'',
     ''#  SSSS  SSSS  SSSS  SSSS    #'',
     ''#                          D #'',
     ''#  SSSS  SSSS  SSSS  SSSS    #'',
     ''#  SSSS  SSSS  SSSS  SSSS    #'',
     ''#                          D #'',
     ''#  SSSS  SSSS  SSSS  SSSS    #'',
     ''#  SSSS  SSSS  SSSS  SSSS    #'',
     ''#                            #'',
     ''#            C  C  C         #'',
     ''#                            #'',
     ''#  SSSS  SSSS  SSSS  SSSS    #'',
     ''#  SSSS  SSSS  SSSS  SSSS    #'',
     ''#                          D #'',
     ''#  SSSS  SSSS  SSSS  SSSS    #'',
     ''#  SSSS  SSSS  SSSS  SSSS    #'',
     ''#                          D #'',
     ''#  SSSS  SSSS  SSSS  SSSS    #'',
     ''#  SSSS  SSSS  SSSS  SSSS    #'',
     ''#                          D #'',
     ''#  SSSS  SSSS  SSSS  SSSS    #'',
     ''#  SSSS  SSSS  SSSS  SSSS    #'',
     ''#                            #'',
     ''#                            #'',
     ''##############################'']"

definition kind_of_symbol :: "char \<Rightarrow> kind option" where
  "kind_of_symbol ch =
     (if ch = CHR ''#'' then Some WallAgent
      else if ch = CHR ''S'' then Some ShelfAgent
      else if ch = CHR ''C'' then Some ChargingStationAgent
      else if ch = CHR ''D'' then Some DropoffPointAgent
      else None)"

definition layout_agents :: "string list \<Rightarrow> (kind \<times> cell) list" where
  "layout_agents rows =
     concat (map (\<lambda>(y, row).
               concat (map (\<lambda>(x, ch). case kind_of_symbol ch of
                                          None \<Rightarrow> []
                                        | Some k \<Rightarrow> [(k, (int x, int y))])
                           (enumerate 0 row)))
             (enumerate 0 rows))"

text \<open>
  \<open>_create_warehouse_layout\<close>, with the rows of the layout as an argument (the program
  passes \<open>warehouse_layout\<close>). \<open>place_agent\<close> indexes the grid with the cell, which raises
  IndexError for a cell at or beyond the width or height.
\<close>

definition create_warehouse_layout :: "string list \<Rightarrow> model \<Rightarrow> error + model" where
  "create_warehouse_layout rows m =
     (if list_all (\<lambda>a. in_bounds (grid_of m) (snd a)) (layout_agents rows)
      then Inr (m\<lparr>statics := statics m @ layout_agents rows\<rparr>)
      else Inl IndexError)"

definition new_agv :: "cell \<Rightarrow> agv" where
  "new_agv p = \<lparr>pos = p, battery_level = 100, state = IDLE, task = None, path = [],
               steps_waiting = 0\<rparr>"

fun create_agvs :: "nat \<Rightarrow> cell list \<Rightarrow> model \<Rightarrow> model" where
  "create_agvs 0 open_spaces m = m"
| "create_agvs (Suc n) open_spaces m =
     (if open_spaces = [] then create_agvs n open_spaces m
      else (let (p, m1) = random_choice open_spaces m
            in create_agvs n (remove1 p open_spaces) (m1\<lparr>agvs := agvs m1 @ [new_agv p]\<rparr>)))"

text \<open>The cells \<open>(x, y)\<close> for \<open>x in range(width)\<close> and \<open>y in range(height)\<close>, in that order.\<close>

definition all_cells :: "grid \<Rightarrow> cell list" where
  "all_cells g = List.product [0..gwidth g - 1] [0..gheight g - 1]"

definition create_agv_fleet :: "nat \<Rightarrow> model \<Rightarrow> model" where
  "create_agv_fleet num_agvs m =
     create_agvs num_agvs
       (filter (\<lambda>c. \<not> (\<exists>agent \<in> set (cell_list m c).
                          agent \<in> {WallAgent, ShelfAgent, AGVAgent}))
               (all_cells (grid_of m)))
       m"

definition WarehouseModel_init ::
  "int \<Rightarrow> int \<Rightarrow> nat \<Rightarrow> string list \<Rightarrow> nat list \<Rightarrow> error + model"
where
  "WarehouseModel_init w h num_agvs rows rs =
     (case create_warehouse_layout rows
             \<lparr>width = w, height = h, statics = [], agvs = [], available_tasks = [],
              completed_tasks = 0, random_numbers = rs\<rparr> of
        Inl e \<Rightarrow> Inl e
      | Inr m \<Rightarrow> Inr (generate_tasks 30 (create_agv_fleet num_agvs m)))"

text \<open>
  The states the program can be in: the freshly built model, and what single vehicle
  actions and the two twin hooks make of a state.
\<close>

inductive reachable :: "model \<Rightarrow> bool" where
  built: "WarehouseModel_init w h num_agvs rows rs = Inr m \<Longrightarrow> reachable m"
| acted: "reachable m \<Longrightarrow> i < length (agvs m) \<Longrightarrow> agv_step i m = Inr m' \<Longrightarrow> reachable m'"
| overridden:
    "reachable m \<Longrightarrow> i < length (agvs m) \<Longrightarrow> override_position i c m = Inr m' \<Longrightarrow> reachable m'"
| injected: "reachable m \<Longrightarrow> i < length (agvs m) \<Longrightarrow> reachable (assign_external_task i t m)"

subsection \<open>The search over a queue that may order equal keys as it likes\<close>

text \<open>
  The search loop again, as a relation between a loop state and a result, for a priority
  queue of which only this is known: \<open>get\<close> returns an entry whose pair
  \<open>(f_score, counter)\<close> is least among the entries queued.
\<close>

definition key :: "entry \<Rightarrow> int \<times> nat" where
  "key e = (fst e, e_counter e)"

definition least_key :: "entry list \<Rightarrow> entry \<Rightarrow> bool" where
  "least_key frontier e \<longleftrightarrow> e \<in> set frontier \<and> list_all (\<lambda>e'. key e \<le> key e') frontier"

inductive queue_loop ::
  "grid \<Rightarrow> cell \<Rightarrow> kind list \<Rightarrow> entry list \<Rightarrow> cell set \<Rightarrow> nat \<Rightarrow> cell list \<Rightarrow> bool"
where
  drained: "queue_loop g end obstacles [] visited counter []"
| arrived:
    "least_key frontier e \<Longrightarrow> e_pos e = end
       \<Longrightarrow> queue_loop g end obstacles frontier visited counter (e_path e)"
| skipped:
    "least_key frontier e \<Longrightarrow> e_pos e \<noteq> end \<Longrightarrow> e_pos e \<in> visited
       \<Longrightarrow> queue_loop g end obstacles (remove1 e frontier) visited counter r
       \<Longrightarrow> queue_loop g end obstacles frontier visited counter r"
| expanded:
    "least_key frontier e \<Longrightarrow> e_pos e \<noteq> end \<Longrightarrow> e_pos e \<notin> visited
       \<Longrightarrow> queue_loop g end obstacles
             (fst (expand g end obstacles (insert (e_pos e) visited) (e_pos e) (e_path e)
                     (remove1 e frontier, counter)))
             (insert (e_pos e) visited)
             (snd (expand g end obstacles (insert (e_pos e) visited) (e_pos e) (e_path e)
                     (remove1 e frontier, counter)))
             r
       \<Longrightarrow> queue_loop g end obstacles frontier visited counter r"

definition queue_astar :: "grid \<Rightarrow> cell \<Rightarrow> cell \<Rightarrow> kind list \<Rightarrow> cell list \<Rightarrow> bool" where
  "queue_astar g start end obstacles r \<longleftrightarrow>
     queue_loop g end obstacles [(0, 0, start, [start])] {} 0 r"

subsection \<open>Properties of a state\<close>

text \<open>The number of vehicles the grid holds on a cell, and the states in which no cell of the
  grid holds more than one.\<close>

definition vehicles_at :: "model \<Rightarrow> cell \<Rightarrow> nat" where
  "vehicles_at m c = length (filter (\<lambda>agent. agent = AGVAgent) (cell_list m c))"

definition no_double_occupancy :: "model \<Rightarrow> bool" where
  "no_double_occupancy m \<longleftrightarrow> list_all (\<lambda>c. vehicles_at m c \<le> 1) (all_cells (grid_of m))"

definition battery_in_range :: "model \<Rightarrow> bool" where
  "battery_in_range m \<longleftrightarrow>
     list_all (\<lambda>a. 0 \<le> battery_level a \<and> battery_level a \<le> 100) (agvs m)"


text \<open>The test of \<open>_charge_battery\<close>: a charging station stands on the vehicle's cell.\<close>

definition at_station :: "nat \<Rightarrow> model \<Rightarrow> bool" where
  "at_station i m =
     (case get_cell_list_contents (grid_of m) (pos (agvs m ! i)) of
        Inl e \<Rightarrow> False
      | Inr cell_contents \<Rightarrow> ChargingStationAgent \<in> set cell_contents)"

subsection \<open>Small states used in the examples\<close>

definition open_grid :: "int \<Rightarrow> int \<Rightarrow> grid" where
  "open_grid w h = \<lparr>gwidth = w, gheight = h, cells = (\<lambda>c. [])\<rparr>"

definition errand :: task where
  "errand = \<lparr>pickup = (2, 0), dropoff = (2, 1)\<rparr>"

definition parked :: agv where
  "parked = \<lparr>pos = (0, 0), battery_level = 100, state = IDLE, task = None, path = [],
             steps_waiting = 0\<rparr>"

text \<open>A floor of three by two cells without static agents, holding the given vehicles.\<close>

definition floor_model :: "agv list \<Rightarrow> model" where
  "floor_model vs = \<lparr>width = 3, height = 2, statics = [], agvs = vs, available_tasks = [],
                     completed_tasks = 0, random_numbers = []\<rparr>"

text \<open>
  A corridor of three cells with a charging station at its far end, and the same corridor
  with a wall between the vehicle and the station. The vehicle is delivering on a battery
  of 10 percent.
\<close>

definition docked :: model where
  "docked = \<lparr>width = 3, height = 1,
             statics = [(ChargingStationAgent, (2, 0))],
             agvs = [parked\<lparr>battery_level := 10, state := DELIVERING, task := Some errand\<rparr>],
             available_tasks = [], completed_tasks = 0, random_numbers = []\<rparr>"

definition walled_off :: model where
  "walled_off = \<lparr>width = 3, height = 1,
             statics = [(WallAgent, (1, 0)), (ChargingStationAgent, (2, 0))],
             agvs = [parked\<lparr>battery_level := 10, state := DELIVERING, task := Some errand\<rparr>],
             available_tasks = [], completed_tasks = 0, random_numbers = []\<rparr>"

text \<open>
  A model built by \<open>__init__\<close> from a layout of two rows: a shelf, a charging station
  and a drop-off point in the first row, an empty second row, and one vehicle.
\<close>

definition tiny_layout :: "string list" where
  "tiny_layout = [''SCD'', ''   '']"

definition tiny :: model where
  "tiny = generate_tasks 30
            (create_agv_fleet 1
               \<lparr>width = 3, height = 2, statics = layout_agents tiny_layout, agvs = [],
                available_tasks = [], completed_tasks = 0, random_numbers = []\<rparr>)"

text \<open>
  A vehicle about to roll from \<open>(0, 0)\<close> to \<open>(1, 0)\<close>; a vehicle charging on a
  station at half battery; and two vehicles whose paths both lead to \<open>(1, 0)\<close> next.
\<close>

definition rolling :: model where
  "rolling = floor_model [parked\<lparr>state := DELIVERING, task := Some errand,
                                path := [(1, 0), (2, 0)]\<rparr>]"

definition plugged_in :: model where
  "plugged_in = \<lparr>width = 3, height = 1,
                 statics = [(ChargingStationAgent, (0, 0))],
                 agvs = [parked\<lparr>battery_level := 50, state := CHARGING\<rparr>],
                 available_tasks = [], completed_tasks = 0, random_numbers = []\<rparr>"

definition crossing :: model where
  "crossing = floor_model
     [parked\<lparr>state := DELIVERING, task := Some errand, path := [(1, 0)]\<rparr>,
      parked\<lparr>pos := (2, 0), state := DELIVERING, task := Some errand, path := [(1, 0)]\<rparr>]"


section \<open>Properties\<close>

subsection \<open>Updating one vehicle\<close>

lemma agvs_set_agv: "agvs (set_agv i a m) = (agvs m)[i := a]"
  by (simp add: set_agv_def)

lemma set_agv_fields:
  "width (set_agv i a m) = width m" "height (set_agv i a m) = height m"
  "statics (set_agv i a m) = statics m" "available_tasks (set_agv i a m) = available_tasks m"
  "random_numbers (set_agv i a m) = random_numbers m"
  by (simp_all add: set_agv_def)

lemma map_update_same:
  assumes "f a = f (xs ! i)"
  shows "map f (xs[i := a]) = map f xs"
proof (cases "i < length xs")
  case True
  with assms have "(map f xs)[i := f a] = (map f xs)[i := map f xs ! i]" by simp
  then show ?thesis by (simp only: map_update list_update_id)
next
  case False
  then have "xs[i := a] = xs" by (simp add: list_update_beyond)
  then show ?thesis by simp
qed

lemma vehicles_filter_pos:
  "map (\<lambda>a. AGVAgent) (filter (\<lambda>a. pos a = c) xs)
     = map (\<lambda>p. AGVAgent) (filter (\<lambda>p. p = c) (map pos xs))"
  by (induction xs) auto

lemma cell_list_set_agv_same_pos:
  "pos a = pos (agvs m ! i) \<Longrightarrow> cell_list (set_agv i a m) = cell_list m"
  by (rule ext) (simp add: cell_list_def vehicles_filter_pos agvs_set_agv set_agv_fields
      map_update_same)

lemma grid_of_set_agv_same_pos:
  "pos a = pos (agvs m ! i) \<Longrightarrow> grid_of (set_agv i a m) = grid_of m"
  by (simp add: grid_of_def cell_list_set_agv_same_pos set_agv_fields)

subsection \<open>A goal that is blocked\<close>





subsection \<open>What the dispatcher changes\<close>

lemma random_choice_frame:
  "statics (snd (random_choice xs m)) = statics m"
  "agvs (snd (random_choice xs m)) = agvs m"
  "width (snd (random_choice xs m)) = width m"
  "height (snd (random_choice xs m)) = height m"
  "available_tasks (snd (random_choice xs m)) = available_tasks m"
  by (simp_all add: random_choice_def split: list.split)

lemma random_choice_in: "xs \<noteq> [] \<Longrightarrow> fst (random_choice xs m) \<in> set xs"
  by (simp add: random_choice_def split: list.split)

lemma generate_loop_frame:
  "statics (generate_loop n sp dp m) = statics m
   \<and> agvs (generate_loop n sp dp m) = agvs m
   \<and> width (generate_loop n sp dp m) = width m
   \<and> height (generate_loop n sp dp m) = height m
   \<and> (\<exists>ts. available_tasks (generate_loop n sp dp m) = available_tasks m @ ts
           \<and> length ts = n \<and> (sp \<noteq> [] \<longrightarrow> (\<forall>t \<in> set ts. pickup t \<in> set sp)))"
proof (induction n arbitrary: m)
  case 0
  show ?case by simp
next
  case (Suc n)
  let ?m1 = "snd (random_choice sp m)"
  let ?p = "fst (random_choice sp m)"
  let ?m2 = "snd (random_choice dp ?m1)"
  let ?d = "fst (random_choice dp ?m1)"
  let ?m3 = "?m2\<lparr>available_tasks := available_tasks ?m2 @ [\<lparr>pickup = ?p, dropoff = ?d\<rparr>]\<rparr>"
  have unfold: "generate_loop (Suc n) sp dp m = generate_loop n sp dp ?m3"
    by (simp add: split_def Let_def)
  from Suc.IH [of ?m3] obtain ts where
    ts: "available_tasks (generate_loop n sp dp ?m3) = available_tasks ?m3 @ ts"
        "length ts = n" "sp \<noteq> [] \<longrightarrow> (\<forall>t \<in> set ts. pickup t \<in> set sp)"
    by blast
  have "available_tasks (generate_loop (Suc n) sp dp m)
          = available_tasks m @ (\<lparr>pickup = ?p, dropoff = ?d\<rparr> # ts)"
    unfolding unfold using ts(1) by (simp add: random_choice_frame)
  moreover have "length (\<lparr>pickup = ?p, dropoff = ?d\<rparr> # ts) = Suc n"
    using ts(2) by simp
  moreover have "sp \<noteq> [] \<longrightarrow> (\<forall>t \<in> set (\<lparr>pickup = ?p, dropoff = ?d\<rparr> # ts). pickup t \<in> set sp)"
    using ts(3) by (simp add: random_choice_in)
  ultimately have "\<exists>ts. available_tasks (generate_loop (Suc n) sp dp m) = available_tasks m @ ts
           \<and> length ts = Suc n \<and> (sp \<noteq> [] \<longrightarrow> (\<forall>t \<in> set ts. pickup t \<in> set sp))"
    by blast
  moreover have "statics (generate_loop (Suc n) sp dp m) = statics m
   \<and> agvs (generate_loop (Suc n) sp dp m) = agvs m
   \<and> width (generate_loop (Suc n) sp dp m) = width m
   \<and> height (generate_loop (Suc n) sp dp m) = height m"
    unfolding unfold using Suc.IH [of ?m3] by (simp add: random_choice_frame)
  ultimately show ?case by blast
qed

lemma generate_tasks_frame:
  "statics (generate_tasks n m) = statics m"
  "agvs (generate_tasks n m) = agvs m"
  "width (generate_tasks n m) = width m"
  "height (generate_tasks n m) = height m"
  using generate_loop_frame [of n "positions_of ShelfAgent m" "positions_of DropoffPointAgent m" m]
  by (simp_all add: generate_tasks_def Let_def)

lemma generate_tasks_backlog:
  "\<exists>ts. available_tasks (generate_tasks n m) = available_tasks m @ ts
        \<and> (\<forall>t \<in> set ts. pickup t \<in> set (positions_of ShelfAgent m))
        \<and> (positions_of ShelfAgent m \<noteq> [] \<and> positions_of DropoffPointAgent m \<noteq> []
             \<longrightarrow> length ts = n)"
proof (cases "positions_of ShelfAgent m = [] \<or> positions_of DropoffPointAgent m = []")
  case True
  then have "available_tasks (generate_tasks n m) = available_tasks m @ []"
    by (simp add: generate_tasks_def)
  with True show ?thesis by (intro exI [of _ "[]"]) auto
next
  case False
  then show ?thesis
    using generate_loop_frame [of n "positions_of ShelfAgent m" "positions_of DropoffPointAgent m" m]
    by (auto simp: generate_tasks_def Let_def)
qed

lemma assign_task_to_agv_frame:
  "statics (snd (assign_task_to_agv m)) = statics m"
  "agvs (snd (assign_task_to_agv m)) = agvs m"
  "width (snd (assign_task_to_agv m)) = width m"
  "height (snd (assign_task_to_agv m)) = height m"
  by (simp_all add: assign_task_to_agv_def generate_tasks_frame split: list.split)



subsection \<open>What one vehicle's action changes\<close>

lemma calculate_path_to_frame:
  "statics (calculate_path_to i d m) = statics m"
  "width (calculate_path_to i d m) = width m"
  "height (calculate_path_to i d m) = height m"
  "available_tasks (calculate_path_to i d m) = available_tasks m"
  "map pos (agvs (calculate_path_to i d m)) = map pos (agvs m)"
  "map battery_level (agvs (calculate_path_to i d m)) = map battery_level (agvs m)"
  by (simp_all add: calculate_path_to_def Let_def set_agv_def map_update_same)

lemma handle_idle_state_frame:
  "statics (handle_idle_state i m) = statics m"
  "width (handle_idle_state i m) = width m"
  "height (handle_idle_state i m) = height m"
  "available_tasks (handle_idle_state i m) = available_tasks (snd (assign_task_to_agv m))"
  "map pos (agvs (handle_idle_state i m)) = map pos (agvs m)"
  "map battery_level (agvs (handle_idle_state i m)) = map battery_level (agvs m)"
proof -
  obtain ot m1 where a: "assign_task_to_agv m = (ot, m1)" by (cases "assign_task_to_agv m")
  then have m1: "statics m1 = statics m" "agvs m1 = agvs m" "width m1 = width m"
      "height m1 = height m"
    using assign_task_to_agv_frame [of m] by simp_all
  show "statics (handle_idle_state i m) = statics m"
    "width (handle_idle_state i m) = width m"
    "height (handle_idle_state i m) = height m"
    "available_tasks (handle_idle_state i m) = available_tasks (snd (assign_task_to_agv m))"
    "map pos (agvs (handle_idle_state i m)) = map pos (agvs m)"
    "map battery_level (agvs (handle_idle_state i m)) = map battery_level (agvs m)"
    by (cases ot; simp add: handle_idle_state_def a m1 calculate_path_to_frame set_agv_def
          map_update_same)+
qed

lemma start_charging_frame:
  "statics (start_charging i m) = statics m"
  "width (start_charging i m) = width m"
  "height (start_charging i m) = height m"
  "available_tasks (start_charging i m) = available_tasks m"
  "map pos (agvs (start_charging i m)) = map pos (agvs m)"
  "map battery_level (agvs (start_charging i m)) = map battery_level (agvs m)"
  by (simp_all add: start_charging_def calculate_path_to_frame set_agv_def map_update_same)

lemma complete_task_frame:
  "statics (complete_task i m) = statics m"
  "width (complete_task i m) = width m"
  "height (complete_task i m) = height m"
  "available_tasks (complete_task i m) = available_tasks m"
  "map pos (agvs (complete_task i m)) = map pos (agvs m)"
  "map battery_level (agvs (complete_task i m)) = map battery_level (agvs m)"
  by (simp_all add: complete_task_def set_agv_def map_update_same)

lemma get_cell_list_contents_in_bounds:
  "in_bounds g c \<Longrightarrow> get_cell_list_contents g c = Inr (cells g c)"
  by (cases c) (simp add: get_cell_list_contents_def py_index_def in_bounds_def)

lemma follow_path_frame:
  assumes "follow_path i m = Inr m'"
  shows "statics m' = statics m" "width m' = width m" "height m' = height m"
    "available_tasks m' = available_tasks m"
  using assms
  by (auto simp: follow_path_def Let_def set_agv_def move_agent_def
      split: list.splits sum.splits if_splits)

lemma follow_path_agvs:
  assumes "i < length (agvs m)" and "follow_path i m = Inr m'"
  shows "(map pos (agvs m') = map pos (agvs m)
            \<and> map battery_level (agvs m') = map battery_level (agvs m))
         \<or> (path (agvs m ! i) \<noteq> []
            \<and> in_bounds (grid_of m) (hd (path (agvs m ! i)))
            \<and> vehicles_at m (hd (path (agvs m ! i))) = 0
            \<and> map pos (agvs m') = (map pos (agvs m))[i := hd (path (agvs m ! i))]
            \<and> map battery_level (agvs m')
                = (map battery_level (agvs m))
                    [i := max 0 (battery_level (agvs m ! i) - battery_drain_rate)])"
proof (cases "path (agvs m ! i)")
  case Nil
  with assms(2) show ?thesis by (simp add: follow_path_def)
next
  case (Cons next_pos rest)
  show ?thesis
  proof (cases "get_cell_list_contents (grid_of m) next_pos")
    case (Inl e)
    with assms(2) Cons show ?thesis by (simp add: follow_path_def)
  next
    case (Inr cell_contents)
    show ?thesis
    proof (cases "filter (\<lambda>agent. agent = AGVAgent) cell_contents \<noteq> []")
      case True
      with assms(2) Cons Inr have "m' = set_agv i ((agvs m ! i)\<lparr>state := WAITING,
                      steps_waiting := steps_waiting (agvs m ! i) + 1\<rparr>) m"
        by (auto simp: follow_path_def Let_def)
      then show ?thesis by (simp add: set_agv_def map_update_same)
    next
      case False
      let ?a = "agvs m ! i"
      let ?m1 = "if state ?a = WAITING
                 then set_agv i (?a\<lparr>state := (if task ?a \<noteq> None then MOVING_TO_PICKUP
                                                 else DELIVERING)\<rparr>) m
                 else m"
      have g1: "grid_of ?m1 = grid_of m"
        by (simp add: grid_of_set_agv_same_pos)
      have a1: "pos (agvs ?m1 ! i) = pos ?a" "battery_level (agvs ?m1 ! i) = battery_level ?a"
        using assms(1) by (simp_all add: set_agv_def)
      have len1: "i < length (agvs ?m1)" using assms(1) by (simp add: set_agv_def)
      have maps1: "map pos (agvs ?m1) = map pos (agvs m)"
          "map battery_level (agvs ?m1) = map battery_level (agvs m)"
        by (simp_all add: set_agv_def map_update_same)
      from assms(2) Cons Inr False obtain m2 where
        mv: "move_agent i next_pos ?m1 = Inr m2"
        and fin: "m' = set_agv i ((agvs m2 ! i)
                                \<lparr>pos := next_pos,
                                 path := rest,
                                 battery_level :=
                                   max 0 (battery_level (agvs m2 ! i) - battery_drain_rate),
                                 steps_waiting := 0\<rparr>) m2"
        by (auto simp: follow_path_def Let_def split: sum.splits)
      from mv have inb: "in_bounds (grid_of m) next_pos"
        and m2: "m2 = set_agv i ((agvs ?m1 ! i)\<lparr>pos := next_pos\<rparr>) ?m1"
        unfolding move_agent_def g1 by (auto split: if_splits sum.splits)
      have b2: "battery_level (agvs m2 ! i) = battery_level ?a"
        using len1 a1 by (simp add: m2 set_agv_def)
      have "cell_contents = cell_list m next_pos"
        using Inr get_cell_list_contents_in_bounds [OF inb] by (simp add: grid_of_def)
      with False have free: "vehicles_at m next_pos = 0" by (simp add: vehicles_at_def)
      have "map pos (agvs m') = (map pos (agvs m))[i := next_pos]"
        by (simp add: fin m2 set_agv_def map_update maps1 del: if_split) 
      moreover have "map battery_level (agvs m')
          = (map battery_level (agvs m))[i := max 0 (battery_level ?a - battery_drain_rate)]"
        unfolding fin b2 by (simp add: m2 set_agv_def map_update maps1 del: if_split)
      ultimately show ?thesis using Cons inb free by simp
    qed
  qed
qed

lemma map_update_nth: "(map f xs)[i := f (xs ! i)] = map f xs"
proof (cases "i < length xs")
  case True
  then have "(map f xs)[i := f (xs ! i)] = (map f xs)[i := map f xs ! i]" by simp
  then show ?thesis by (simp only: list_update_id)
next
  case False
  then show ?thesis by (simp add: list_update_beyond)
qed

lemma charge_battery_frame:
  assumes "charge_battery i m = Inr m'"
  shows "statics m' = statics m" "width m' = width m" "height m' = height m"
    "available_tasks m' = available_tasks m"
proof -
  have "statics m' = statics m \<and> width m' = width m \<and> height m' = height m
        \<and> available_tasks m' = available_tasks m"
  proof (cases "at_station i m")
    case True
    with assms show ?thesis
      by (auto simp: charge_battery_def at_station_def Let_def set_agv_def
          split: sum.splits if_splits)
  next
    case False
    with assms have "follow_path i m = Inr m'"
      by (auto simp: charge_battery_def at_station_def Let_def split: sum.splits if_splits)
    then show ?thesis by (simp add: follow_path_frame)
  qed
  then show "statics m' = statics m" "width m' = width m" "height m' = height m"
    "available_tasks m' = available_tasks m" by simp_all
qed

lemma charge_battery_at_station:
  assumes "charge_battery i m = Inr m'" and "at_station i m"
  shows "map pos (agvs m') = map pos (agvs m)"
    and "map battery_level (agvs m')
          = (map battery_level (agvs m))
              [i := min 100 (battery_level (agvs m ! i) + battery_charge_rate)]"
  using assms
  by (auto simp: charge_battery_def at_station_def Let_def set_agv_def map_update_nth map_update
      split: sum.splits if_splits)

lemma charge_battery_away:
  assumes "charge_battery i m = Inr m'" and "\<not> at_station i m"
  shows "follow_path i m = Inr m'"
  using assms
  by (auto simp: charge_battery_def at_station_def Let_def split: sum.splits if_splits)

lemma agv_step_frame:
  assumes "agv_step i m = Inr m'"
  shows "statics m' = statics m" "width m' = width m" "height m' = height m"
    "available_tasks m' = available_tasks m
     \<or> available_tasks m' = available_tasks (snd (assign_task_to_agv m))"
proof -
  have "statics m' = statics m \<and> width m' = width m \<and> height m' = height m
        \<and> (available_tasks m' = available_tasks m
           \<or> available_tasks m' = available_tasks (snd (assign_task_to_agv m)))"
  proof (cases "battery_level (agvs m ! i) < low_battery_threshold \<and> state (agvs m ! i) \<noteq> CHARGING")
    case True
    with assms have "m' = start_charging i m" by (auto simp: agv_step_def Let_def)
    then show ?thesis by (simp add: start_charging_frame)
  next
    case False
    show ?thesis
    proof (cases "state (agvs m ! i)")
      case IDLE
      with assms False have "m' = handle_idle_state i m" by (auto simp: agv_step_def Let_def)
      then show ?thesis by (simp add: handle_idle_state_frame)
    next
      case MOVING_TO_PICKUP
      with assms False have "\<exists>m1. follow_path i m = Inr m1
          \<and> (m' = m1 \<or> (m' = calculate_path_to i (dropoff (the (task (agvs m1 ! i))))
                                (set_agv i ((agvs m1 ! i)\<lparr>state := DELIVERING\<rparr>) m1)))"
        by (cases "follow_path i m")
           (auto simp: agv_step_def Let_def split: option.splits if_splits)
      then obtain m1 where f: "follow_path i m = Inr m1"
        and m': "m' = m1 \<or> (m' = calculate_path_to i (dropoff (the (task (agvs m1 ! i))))
                                (set_agv i ((agvs m1 ! i)\<lparr>state := DELIVERING\<rparr>) m1))"
        by blast
      from m' show ?thesis
        using follow_path_frame [OF f]
        by (auto simp: calculate_path_to_frame set_agv_def)
    next
      case DELIVERING
      with assms False obtain m1 where f: "follow_path i m = Inr m1"
        and m': "m' = m1 \<or> m' = complete_task i m1"
        by (auto simp: agv_step_def Let_def split: sum.splits if_splits)
      from m' show ?thesis
        using follow_path_frame [OF f] by (auto simp: complete_task_frame)
    next
      case CHARGING
      with assms False have "charge_battery i m = Inr m'" by (auto simp: agv_step_def Let_def)
      then show ?thesis by (simp add: charge_battery_frame)
    next
      case WAITING
      with assms False have "m' = m" by (auto simp: agv_step_def Let_def)
      then show ?thesis by simp
    qed
  qed
  then show "statics m' = statics m" "width m' = width m" "height m' = height m"
    "available_tasks m' = available_tasks m
     \<or> available_tasks m' = available_tasks (snd (assign_task_to_agv m))" by simp_all
qed

lemma agv_step_agvs:
  assumes "i < length (agvs m)" and "agv_step i m = Inr m'"
  shows "(map pos (agvs m') = map pos (agvs m)
            \<and> map battery_level (agvs m') = map battery_level (agvs m))
         \<or> (\<not> (state (agvs m ! i) = CHARGING \<and> at_station i m)
            \<and> path (agvs m ! i) \<noteq> []
            \<and> in_bounds (grid_of m) (hd (path (agvs m ! i)))
            \<and> vehicles_at m (hd (path (agvs m ! i))) = 0
            \<and> map pos (agvs m') = (map pos (agvs m))[i := hd (path (agvs m ! i))]
            \<and> map battery_level (agvs m')
                = (map battery_level (agvs m))
                    [i := max 0 (battery_level (agvs m ! i) - battery_drain_rate)])
         \<or> (state (agvs m ! i) = CHARGING \<and> at_station i m
            \<and> map pos (agvs m') = map pos (agvs m)
            \<and> map battery_level (agvs m')
                = (map battery_level (agvs m))
                    [i := min 100 (battery_level (agvs m ! i) + battery_charge_rate)])"
proof (cases "battery_level (agvs m ! i) < low_battery_threshold \<and> state (agvs m ! i) \<noteq> CHARGING")
  case True
  with assms have "m' = start_charging i m" by (auto simp: agv_step_def Let_def)
  then show ?thesis by (simp add: start_charging_frame)
next
  case False
  show ?thesis
  proof (cases "state (agvs m ! i)")
    case IDLE
    with assms False have "m' = handle_idle_state i m" by (auto simp: agv_step_def Let_def)
    then show ?thesis by (simp add: handle_idle_state_frame)
  next
    case MOVING_TO_PICKUP
    with assms False have "\<exists>m1. follow_path i m = Inr m1
        \<and> (m' = m1 \<or> (m' = calculate_path_to i (dropoff (the (task (agvs m1 ! i))))
                              (set_agv i ((agvs m1 ! i)\<lparr>state := DELIVERING\<rparr>) m1)))"
      by (cases "follow_path i m")
         (auto simp: agv_step_def Let_def split: option.splits if_splits)
    then obtain m1 where f: "follow_path i m = Inr m1"
      and m': "m' = m1 \<or> (m' = calculate_path_to i (dropoff (the (task (agvs m1 ! i))))
                              (set_agv i ((agvs m1 ! i)\<lparr>state := DELIVERING\<rparr>) m1))"
      by blast
    from m' have "map pos (agvs m') = map pos (agvs m1)"
        "map battery_level (agvs m') = map battery_level (agvs m1)"
      by (auto simp: calculate_path_to_frame set_agv_def map_update_same)
    with follow_path_agvs [OF assms(1) f] MOVING_TO_PICKUP show ?thesis by simp
  next
    case DELIVERING
    with assms False obtain m1 where f: "follow_path i m = Inr m1"
      and m': "m' = m1 \<or> m' = complete_task i m1"
      by (auto simp: agv_step_def Let_def split: sum.splits if_splits)
    from m' have "map pos (agvs m') = map pos (agvs m1)"
        "map battery_level (agvs m') = map battery_level (agvs m1)"
      by (auto simp: complete_task_frame)
    with follow_path_agvs [OF assms(1) f] DELIVERING show ?thesis by simp
  next
    case CHARGING
    with assms False have c: "charge_battery i m = Inr m'" by (auto simp: agv_step_def Let_def)
    show ?thesis
    proof (cases "at_station i m")
      case True
      with charge_battery_at_station [OF c] CHARGING show ?thesis by simp
    next
      case False
      with follow_path_agvs [OF assms(1) charge_battery_away [OF c False]] show ?thesis by simp
    qed
  next
    case WAITING
    with assms False have "m' = m" by (auto simp: agv_step_def Let_def)
    then show ?thesis by simp
  qed
qed

subsection \<open>The hooks and the freshly built model\<close>

lemma override_position_frame:
  assumes "override_position i c m = Inr m'"
  shows "statics m' = statics m" "width m' = width m" "height m' = height m"
    "available_tasks m' = available_tasks m"
    "map battery_level (agvs m') = map battery_level (agvs m)"
proof -
  let ?m1 = "set_agv i ((agvs m ! i)\<lparr>pos := c\<rparr>) m"
  from assms have m': "m' = set_agv i ((agvs ?m1 ! i)\<lparr>pos := c\<rparr>) ?m1"
    by (auto simp: override_position_def move_agent_def split: sum.splits if_splits)
  have keep: "map battery_level (agvs (set_agv i ((agvs n ! i)\<lparr>pos := c\<rparr>) n))
                = map battery_level (agvs n)" for n
    by (simp add: set_agv_def map_update_same)
  have "map battery_level (agvs m') = map battery_level (agvs ?m1)"
    by (subst m') (rule keep)
  moreover have "map battery_level (agvs ?m1) = map battery_level (agvs m)"
    by (rule keep)
  ultimately show "map battery_level (agvs m') = map battery_level (agvs m)" by simp
  show "statics m' = statics m" "width m' = width m" "height m' = height m"
    "available_tasks m' = available_tasks m"
    by (simp_all add: m' set_agv_def)
qed

lemma assign_external_task_frame:
  "statics (assign_external_task i t m) = statics m"
  "width (assign_external_task i t m) = width m"
  "height (assign_external_task i t m) = height m"
  "available_tasks (assign_external_task i t m) = available_tasks m"
  "map battery_level (agvs (assign_external_task i t m)) = map battery_level (agvs m)"
  by (simp_all add: assign_external_task_def calculate_path_to_frame set_agv_def map_update_same)

lemma create_agvs_frame:
  "statics (create_agvs n spaces m) = statics m
   \<and> width (create_agvs n spaces m) = width m
   \<and> height (create_agvs n spaces m) = height m
   \<and> available_tasks (create_agvs n spaces m) = available_tasks m
   \<and> (list_all (\<lambda>a. battery_level a = 100) (agvs m)
        \<longrightarrow> list_all (\<lambda>a. battery_level a = 100) (agvs (create_agvs n spaces m)))"
proof (induction n arbitrary: spaces m)
  case 0
  show ?case by simp
next
  case (Suc n)
  show ?case
  proof (cases "spaces = []")
    case True
    then show ?thesis using Suc.IH [of spaces m] by simp
  next
    case False
    let ?p = "fst (random_choice spaces m)"
    let ?m1 = "snd (random_choice spaces m)"
    let ?m2 = "?m1\<lparr>agvs := agvs ?m1 @ [new_agv ?p]\<rparr>"
    have unfold: "create_agvs (Suc n) spaces m = create_agvs n (remove1 ?p spaces) ?m2"
      using False by (simp add: split_def Let_def)
    show ?thesis
      unfolding unfold using Suc.IH [of "remove1 ?p spaces" ?m2]
      by (simp add: random_choice_frame new_agv_def)
  qed
qed

lemma WarehouseModel_init_facts:
  assumes "WarehouseModel_init w h num_agvs rows rs = Inr m"
  shows "list_all (\<lambda>a. battery_level a = 100) (agvs m)"
    and "\<forall>t \<in> set (available_tasks m). pickup t \<in> set (positions_of ShelfAgent m)"
    and "positions_of ShelfAgent m \<noteq> [] \<and> positions_of DropoffPointAgent m \<noteq> []
           \<longrightarrow> length (available_tasks m) = 30"
proof -
  let ?m0 = "\<lparr>width = w, height = h, statics = [], agvs = [], available_tasks = [],
              completed_tasks = 0, random_numbers = rs\<rparr>"
  let ?m1 = "?m0\<lparr>statics := statics ?m0 @ layout_agents rows\<rparr>"
  let ?m2 = "create_agv_fleet num_agvs ?m1"
  from assms have m: "m = generate_tasks 30 ?m2"
    by (auto simp: WarehouseModel_init_def create_warehouse_layout_def split: if_splits)
  have fleet: "statics ?m2 = statics ?m1" "available_tasks ?m2 = []"
      "list_all (\<lambda>a. battery_level a = 100) (agvs ?m2)"
    using create_agvs_frame [of num_agvs _ ?m1] by (simp_all add: create_agv_fleet_def)
  show "list_all (\<lambda>a. battery_level a = 100) (agvs m)"
    using fleet(3) by (simp add: m generate_tasks_frame)
  obtain ts where ts: "available_tasks m = available_tasks ?m2 @ ts"
      "\<forall>t \<in> set ts. pickup t \<in> set (positions_of ShelfAgent ?m2)"
      "positions_of ShelfAgent ?m2 \<noteq> [] \<and> positions_of DropoffPointAgent ?m2 \<noteq> []
         \<longrightarrow> length ts = 30"
    unfolding m using generate_tasks_backlog [of 30 ?m2] by blast
  have same: "positions_of k m = positions_of k ?m2" for k
    by (simp add: m positions_of_def generate_tasks_frame)
  show "\<forall>t \<in> set (available_tasks m). pickup t \<in> set (positions_of ShelfAgent m)"
    using ts(1,2) fleet(2) by (simp add: same)
  show "positions_of ShelfAgent m \<noteq> [] \<and> positions_of DropoffPointAgent m \<noteq> []
           \<longrightarrow> length (available_tasks m) = 30"
    using ts(1,3) fleet(2) by (simp add: same)
qed

subsection \<open>Facts that hold in every state the program reaches\<close>

lemma battery_in_range_maps:
  "battery_in_range m \<longleftrightarrow> (\<forall>b \<in> set (map battery_level (agvs m)). 0 \<le> b \<and> b \<le> 100)"
  by (auto simp: battery_in_range_def list_all_iff)

lemma agv_step_battery_in_range:
  assumes "battery_in_range m" and "i < length (agvs m)" and "agv_step i m = Inr m'"
  shows "battery_in_range m'"
proof -
  let ?bs = "map battery_level (agvs m)"
  from assms(1) have old: "\<forall>b \<in> set ?bs. 0 \<le> b \<and> b \<le> 100"
    by (simp add: battery_in_range_maps)
  from assms(2) have "battery_level (agvs m ! i) \<in> set ?bs" by simp
  with old have b: "0 \<le> battery_level (agvs m ! i)" "battery_level (agvs m ! i) \<le> 100"
    by blast+
  have upd: "\<forall>b \<in> set (?bs[i := v]). 0 \<le> b \<and> b \<le> 100" if "0 \<le> v" "v \<le> 100" for v
    using old that set_update_subset_insert [of ?bs i v] by auto
  have drain: "\<forall>b \<in> set (?bs[i := max 0 (battery_level (agvs m ! i) - battery_drain_rate)]).
                 0 \<le> b \<and> b \<le> 100"
    using b by (intro upd) (simp_all add: battery_drain_rate_def)
  have charge: "\<forall>b \<in> set (?bs[i := min 100 (battery_level (agvs m ! i) + battery_charge_rate)]).
                 0 \<le> b \<and> b \<le> 100"
    using b by (intro upd) (simp_all add: battery_charge_rate_def)
  from agv_step_agvs [OF assms(2,3)] old drain charge
  have "\<forall>b \<in> set (map battery_level (agvs m')). 0 \<le> b \<and> b \<le> 100"
    by (elim disjE conjE) simp_all
  then show ?thesis by (simp add: battery_in_range_maps)
qed

lemma reachable_battery_in_range: "reachable m \<Longrightarrow> battery_in_range m"
proof (induction rule: reachable.induct)
  case (built w h num_agvs rows rs m)
  from WarehouseModel_init_facts(1) [OF built]
  show ?case by (auto simp: battery_in_range_def list_all_iff)
next
  case (acted m i m')
  then show ?case by (auto intro: agv_step_battery_in_range)
next
  case (overridden m i c m')
  then show ?case by (simp add: battery_in_range_maps override_position_frame)
next
  case (injected m i t)
  then show ?case by (simp add: battery_in_range_maps assign_external_task_frame)
qed


subsection \<open>The path returned by the search\<close>

text \<open>
  C1 (the code departs from the claim). The claim: \<open>findPath(start, goal, blocking)\<close>
  returns the cells from start to goal, the goal included and the start excluded, and the
  empty sequence exactly when the goal is unreachable or start equals goal. On an open
  floor of three by two cells the search from \<open>(0, 0)\<close> to \<open>(2, 0)\<close> returns a sequence
  that begins with the start cell, and the search from \<open>(0, 0)\<close> to itself returns the
  one-cell sequence \<open>[(0, 0)]\<close>, not the empty one.
\<close>

theorem astar_returns_start_cell:
  "astar (open_grid 3 2) (0, 0) (2, 0) [] = [(0, 0), (1, 0), (2, 0)]
   \<and> astar (open_grid 3 2) (0, 0) (0, 0) [] = [(0, 0)]"
  by code_simp

text \<open>
  C5 (the code departs from the claim). The claim: on an obstacle-free grid the sequence
  returned for in-bounds cells \<open>a\<close> and \<open>b\<close> has length exactly their Manhattan distance.
  From \<open>(0, 0)\<close> to \<open>(2, 1)\<close> the distance is 3 and the sequence returned has 4 cells,
  the start cell being one of them.
\<close>

theorem astar_length_exceeds_manhattan:
  "heuristic (0, 0) (2, 1) = 3
   \<and> in_bounds (open_grid 3 2) (0, 0) \<and> in_bounds (open_grid 3 2) (2, 1)
   \<and> astar (open_grid 3 2) (0, 0) (2, 1) [] = [(0, 0), (1, 0), (2, 0), (2, 1)]
   \<and> length (astar (open_grid 3 2) (0, 0) (2, 1) []) = 4"
  by code_simp

subsection \<open>Following a path\<close>

text \<open>
  C2 (the code departs from the claim). The claim: in the follow-path step the vehicle
  waits if and only if the next path cell holds a vehicle other than itself, and otherwise
  moves. A single vehicle is given a task through the twin hook; its planned path is the
  search result and begins with the vehicle's own cell. No other vehicle exists, yet the
  follow-path step finds a vehicle (the acting one) on the next path cell and sets the
  state to WAITING, counts one waiting step, and leaves position, path and battery as they
  were.
\<close>

theorem follow_path_waits_for_itself:
  "assign_external_task 0 errand (floor_model [parked])
     = floor_model [parked\<lparr>task := Some errand, state := MOVING_TO_PICKUP,
                           path := [(0, 0), (1, 0), (2, 0)]\<rparr>]
   \<and> follow_path 0 (floor_model [parked\<lparr>task := Some errand, state := MOVING_TO_PICKUP,
                                        path := [(0, 0), (1, 0), (2, 0)]\<rparr>])
     = Inr (floor_model [parked\<lparr>task := Some errand, state := WAITING,
                                path := [(0, 0), (1, 0), (2, 0)], steps_waiting := 1\<rparr>])"
  by code_simp

text \<open>
  C3 (the code departs from the claim). The claim: a WAITING vehicle with enough battery,
  a planned path and a task, whose next path cell is free of other vehicles, moves to that
  cell in its next action and takes up its task state again. The vehicle below stands at
  \<open>(0, 0)\<close> in state WAITING with a full battery, the task \<open>errand\<close> and the path
  \<open>[(1, 0), (2, 0)]\<close>; the cell \<open>(1, 0)\<close> is empty. Its action changes nothing:
  \<open>step\<close> has no branch for WAITING.
\<close>

theorem waiting_vehicle_never_resumes:
  "get_cell_list_contents
     (grid_of (floor_model [parked\<lparr>task := Some errand, state := WAITING,
                                   path := [(1, 0), (2, 0)]\<rparr>])) (1, 0) = Inr []
   \<and> agv_step 0 (floor_model [parked\<lparr>task := Some errand, state := WAITING,
                                      path := [(1, 0), (2, 0)]\<rparr>])
     = Inr (floor_model [parked\<lparr>task := Some errand, state := WAITING,
                                path := [(1, 0), (2, 0)]\<rparr>])"
  by code_simp

subsection \<open>Low battery\<close>

text \<open>
  C6 as stated fails: a vehicle with a low battery that is not CHARGING need not be CHARGING
  after its action, nor keep its task. In the corridor \<open>walled_off\<close> the only station
  lies behind a wall; the search returns the empty path and the vehicle ends IDLE with
  its task discarded.
\<close>

theorem low_battery_without_route:
  "battery_level (agvs walled_off ! 0) < low_battery_threshold
   \<and> state (agvs walled_off ! 0) = DELIVERING
   \<and> task (agvs walled_off ! 0) = Some errand
   \<and> agv_step 0 walled_off
       = Inr (walled_off\<lparr>agvs := [parked\<lparr>battery_level := 10, state := IDLE, task := None\<rparr>]\<rparr>)"
  by code_simp

text \<open>
  C6 (amended). A vehicle whose battery is below the low-battery threshold and whose state
  is not CHARGING, in a model with at least one charging station and with a non-empty
  search result from its cell to the nearest station, is CHARGING after its action; its
  path is that search result, its task is unchanged, and the station is one of least
  Manhattan distance from the vehicle.
\<close>

theorem low_battery_starts_charging:
  assumes "i < length (agvs m)"
    and "battery_level (agvs m ! i) < low_battery_threshold"
    and "state (agvs m ! i) \<noteq> CHARGING"
    and "positions_of ChargingStationAgent m \<noteq> []"
    and "astar (grid_of m) (pos (agvs m ! i)) (nearest_station i m) [WallAgent, ShelfAgent] \<noteq> []"
  shows "\<exists>m'. agv_step i m = Inr m'
           \<and> state (agvs m' ! i) = CHARGING
           \<and> path (agvs m' ! i)
               = astar (grid_of m) (pos (agvs m ! i)) (nearest_station i m) [WallAgent, ShelfAgent]
           \<and> task (agvs m' ! i) = task (agvs m ! i)
           \<and> nearest_station i m \<in> set (positions_of ChargingStationAgent m)
           \<and> (\<forall>s \<in> set (positions_of ChargingStationAgent m).
                 heuristic (pos (agvs m ! i)) (nearest_station i m)
                   \<le> heuristic (pos (agvs m ! i)) s)"
proof -
  let ?a = "agvs m ! i"
  let ?m1 = "set_agv i (?a\<lparr>state := CHARGING\<rparr>) m"
  let ?p = "astar (grid_of m) (pos ?a) (nearest_station i m) [WallAgent, ShelfAgent]"
  have self1: "agvs ?m1 ! i = ?a\<lparr>state := CHARGING\<rparr>"
    using assms(1) by (simp add: agvs_set_agv)
  have grid1: "grid_of ?m1 = grid_of m"
    by (simp add: grid_of_set_agv_same_pos)
  have stations1: "nearest_station i ?m1 = nearest_station i m"
    using assms(1) by (simp add: nearest_station_def positions_of_def set_agv_fields agvs_set_agv)
  have calc: "calculate_path_to i (nearest_station i m) ?m1
                = set_agv i (?a\<lparr>state := CHARGING, path := ?p\<rparr>) ?m1"
    using assms(5) by (simp add: calculate_path_to_def self1 grid1 Let_def)
  have run: "agv_step i m = Inr (set_agv i (?a\<lparr>state := CHARGING, path := ?p\<rparr>) ?m1)"
    using assms(2,3,4) calc by (simp add: agv_step_def start_charging_def Let_def)
  have self2: "agvs (set_agv i (?a\<lparr>state := CHARGING, path := ?p\<rparr>) ?m1) ! i
                 = ?a\<lparr>state := CHARGING, path := ?p\<rparr>"
    using assms(1) by (simp add: agvs_set_agv)
  have near: "nearest_station i m \<in> set (positions_of ChargingStationAgent m)"
    unfolding nearest_station_def using assms(4) by (rule arg_min_list_in)
  have least: "heuristic (pos ?a) (nearest_station i m) \<le> heuristic (pos ?a) s"
    if "s \<in> set (positions_of ChargingStationAgent m)" for s
  proof -
    have "heuristic (pos ?a) (nearest_station i m)
            = Min (heuristic (pos ?a) ` set (positions_of ChargingStationAgent m))"
      unfolding nearest_station_def using assms(4) by (rule f_arg_min_list_f)
    also have "\<dots> \<le> heuristic (pos ?a) s"
      using that by simp
    finally show ?thesis .
  qed
  show ?thesis
    using run self2 near least by simp
qed

theorem low_battery_starts_charging_witness:
  "0 < length (agvs docked)
   \<and> battery_level (agvs docked ! 0) < low_battery_threshold
   \<and> state (agvs docked ! 0) \<noteq> CHARGING
   \<and> positions_of ChargingStationAgent docked \<noteq> []
   \<and> astar (grid_of docked) (pos (agvs docked ! 0)) (nearest_station 0 docked) [WallAgent, ShelfAgent] \<noteq> []
   \<and> (\<exists>m'. agv_step 0 docked = Inr m'
           \<and> state (agvs m' ! 0) = CHARGING
           \<and> path (agvs m' ! 0) = [(0, 0), (1, 0), (2, 0)]
           \<and> task (agvs m' ! 0) = Some errand)"
proof -
  have h1: "0 < length (agvs docked)" by code_simp
  have h2: "battery_level (agvs docked ! 0) < low_battery_threshold" by code_simp
  have h3: "state (agvs docked ! 0) \<noteq> CHARGING" by code_simp
  have h4: "positions_of ChargingStationAgent docked \<noteq> []" by code_simp
  have p: "astar (grid_of docked) (pos (agvs docked ! 0)) (nearest_station 0 docked) [WallAgent, ShelfAgent]
          = [(0, 0), (1, 0), (2, 0)]" by code_simp
  have h5: "astar (grid_of docked) (pos (agvs docked ! 0)) (nearest_station 0 docked) [WallAgent, ShelfAgent] \<noteq> []"
    by (simp add: p)
  have t: "task (agvs docked ! 0) = Some errand" by code_simp
  show ?thesis
    using low_battery_starts_charging [OF h1 h2 h3 h4 h5] h1 h2 h3 h4 h5 unfolding p t by blast
qed

subsection \<open>Determinism of the search\<close>

lemma key_mono: "(a::entry) \<le> b \<Longrightarrow> key a \<le> key b"
  by (cases a, cases b) (auto simp: key_def e_counter_def less_eq_prod_def)

lemma least_key_is_Min:
  assumes "distinct (map e_counter frontier)" and "least_key frontier e"
  shows "e = Min (set frontier)"
proof -
  let ?m = "Min (set frontier)"
  from assms(2) have e_in: "e \<in> set frontier" and e_least: "\<forall>e' \<in> set frontier. key e \<le> key e'"
    by (simp_all add: least_key_def list_all_iff)
  from e_in have ne: "set frontier \<noteq> {}" by auto
  then have m_in: "?m \<in> set frontier" by (simp add: Min_in)
  have "?m \<le> e" using e_in by simp
  then have "key ?m \<le> key e" by (rule key_mono)
  moreover have "key e \<le> key ?m" using e_least m_in by blast
  ultimately have "key e = key ?m" by simp
  then have "e_counter e = e_counter ?m" by (simp add: key_def)
  moreover from assms(1) have "inj_on e_counter (set frontier)" by (simp add: distinct_map)
  ultimately show ?thesis using e_in m_in by (auto dest: inj_onD)
qed

lemma push_neighbor_counters:
  assumes "distinct (map e_counter (fst s))" and "\<forall>e \<in> set (fst s). e_counter e \<le> snd s"
  shows "distinct (map e_counter (fst (push_neighbor g end obstacles visited pth n s)))
         \<and> (\<forall>e \<in> set (fst (push_neighbor g end obstacles visited pth n s)).
               e_counter e \<le> snd (push_neighbor g end obstacles visited pth n s))"
  using assms by (auto simp: push_neighbor_def e_counter_def)

lemma fold_push_neighbor_counters:
  assumes "distinct (map e_counter (fst s))" and "\<forall>e \<in> set (fst s). e_counter e \<le> snd s"
  shows "distinct (map e_counter (fst (fold (push_neighbor g end obstacles visited pth) ns s)))
         \<and> (\<forall>e \<in> set (fst (fold (push_neighbor g end obstacles visited pth) ns s)).
               e_counter e \<le> snd (fold (push_neighbor g end obstacles visited pth) ns s))"
  using assms
proof (induction ns arbitrary: s)
  case Nil
  then show ?case by simp
next
  case (Cons n ns)
  have "distinct (map e_counter (fst (push_neighbor g end obstacles visited pth n s)))
         \<and> (\<forall>e \<in> set (fst (push_neighbor g end obstacles visited pth n s)).
               e_counter e \<le> snd (push_neighbor g end obstacles visited pth n s))"
    using Cons.prems by (rule push_neighbor_counters)
  then show ?case using Cons.IH [of "push_neighbor g end obstacles visited pth n s"] by simp
qed

lemma expand_counters:
  assumes "distinct (map e_counter frontier)" and "\<forall>e \<in> set frontier. e_counter e \<le> counter"
  shows "distinct (map e_counter (fst (expand g end obstacles visited current pth (frontier, counter))))
         \<and> (\<forall>e \<in> set (fst (expand g end obstacles visited current pth (frontier, counter))).
               e_counter e \<le> snd (expand g end obstacles visited current pth (frontier, counter)))"
  unfolding expand_def using assms by (intro fold_push_neighbor_counters) simp_all

lemma remove1_counters:
  assumes "distinct (map e_counter frontier)" and "\<forall>e \<in> set frontier. e_counter e \<le> counter"
  shows "distinct (map e_counter (remove1 x frontier))"
    and "\<forall>e \<in> set (remove1 x frontier). e_counter e \<le> counter"
proof -
  have "distinct (map e_counter (remove1 x frontier))" using assms(1)
  proof (induction frontier)
    case Nil
    show ?case by simp
  next
    case (Cons a frontier)
    then show ?case using set_remove1_subset [of x frontier] by auto
  qed
  then show "distinct (map e_counter (remove1 x frontier))" .
  show "\<forall>e \<in> set (remove1 x frontier). e_counter e \<le> counter"
    using assms(2) set_remove1_subset [of x frontier] by blast
qed

lemma queue_loop_is_astar_loop:
  assumes "queue_loop g end obstacles frontier visited counter r"
    and "distinct (map e_counter frontier)"
    and "\<forall>e \<in> set frontier. e_counter e \<le> counter"
  shows "r = astar_loop g end obstacles frontier visited counter"
  using assms
proof (induction rule: queue_loop.induct)
  case (drained g "end" obstacles visited counter)
  show ?case by simp
next
  case (arrived frontier e "end" g obstacles visited counter)
  then have m: "e = Min (set frontier)" by (simp add: least_key_is_Min)
  from arrived have "frontier \<noteq> []" by (auto simp: least_key_def)
  with arrived m show ?case by (subst astar_loop.simps) simp
next
  case (skipped frontier e "end" visited g obstacles counter r)
  then have m: "e = Min (set frontier)" by (simp add: least_key_is_Min)
  from skipped have ne: "frontier \<noteq> []" by (auto simp: least_key_def)
  have "r = astar_loop g end obstacles (remove1 e frontier) visited counter"
    using skipped.IH remove1_counters [OF skipped.prems] by blast
  with skipped.hyps ne m show ?case by (subst astar_loop.simps) simp
next
  case (expanded frontier e "end" visited g obstacles counter r)
  then have m: "e = Min (set frontier)" by (simp add: least_key_is_Min)
  from expanded have ne: "frontier \<noteq> []" by (auto simp: least_key_def)
  let ?s = "expand g end obstacles (insert (e_pos e) visited) (e_pos e) (e_path e)
              (remove1 e frontier, counter)"
  have "distinct (map e_counter (fst ?s)) \<and> (\<forall>e \<in> set (fst ?s). e_counter e \<le> snd ?s)"
    using remove1_counters [OF expanded.prems] by (intro expand_counters) 
  then have "r = astar_loop g end obstacles (fst ?s) (insert (e_pos e) visited) (snd ?s)"
    using expanded.IH by blast
  with expanded.hyps ne m show ?case by (subst astar_loop.simps) simp
qed

lemma Min_least_key: "frontier \<noteq> [] \<Longrightarrow> least_key frontier (Min (set frontier))"
  by (simp add: least_key_def list_all_iff key_mono)

lemma astar_loop_is_queue_loop:
  "queue_loop g end obstacles frontier visited counter
     (astar_loop g end obstacles frontier visited counter)"
proof (induction g "end" obstacles frontier visited counter rule: astar_loop.induct)
  case (1 g "end" obstacles frontier visited counter)
  let ?m = "Min (set frontier)"
  show ?case
  proof (cases "frontier = []")
    case True
    then show ?thesis by (simp add: queue_loop.drained)
  next
    case ne: False
    then have least: "least_key frontier ?m" by (rule Min_least_key)
    show ?thesis
    proof (cases "e_pos ?m = end")
      case True
      have "queue_loop g end obstacles frontier visited counter (e_path ?m)"
        using least True by (rule queue_loop.arrived)
      with ne True show ?thesis by (subst astar_loop.simps) simp
    next
      case away: False
      show ?thesis
      proof (cases "e_pos ?m \<in> visited")
        case True
        have "queue_loop g end obstacles frontier visited counter
                (astar_loop g end obstacles (remove1 ?m frontier) visited counter)"
          using least away True "1.IH"(1) [OF ne away True] by (rule queue_loop.skipped)
        with ne away True show ?thesis by (subst astar_loop.simps) simp
      next
        case False
        let ?s = "expand g end obstacles (insert (e_pos ?m) visited) (e_pos ?m) (e_path ?m)
                    (remove1 ?m frontier, counter)"
        have "queue_loop g end obstacles frontier visited counter
                (astar_loop g end obstacles (fst ?s) (insert (e_pos ?m) visited) (snd ?s))"
          using least away False "1.IH"(2) [OF ne away False] by (rule queue_loop.expanded)
        with ne away False show ?thesis by (subst astar_loop.simps) simp
      qed
    qed
  qed
qed

lemma astar_is_queue_astar: "queue_astar g start end obstacles (astar g start end obstacles)"
  unfolding queue_astar_def astar_def by (rule astar_loop_is_queue_loop)

lemma queue_astar_is_astar:
  "queue_astar g start end obstacles r \<Longrightarrow> r = astar g start end obstacles"
  unfolding queue_astar_def astar_def
  by (rule queue_loop_is_astar_loop) (simp_all add: e_counter_def)

text \<open>
  C10. Two calls of the search with the same start, goal and blocking classes on the same
  grid return the same sequence. The runs are taken over any priority queue that hands
  out an entry of least \<open>(f_score, counter)\<close>, however it orders entries of equal key:
  the counters of the queued entries are pairwise distinct, so the least entry is unique
  and every run returns what \<open>astar\<close> returns.
\<close>

theorem search_result_is_unique:
  assumes "queue_astar g start end obstacles r1" and "queue_astar g start end obstacles r2"
  shows "r1 = r2"
  using assms [THEN queue_astar_is_astar] by simp

lemma short_run: "queue_astar (open_grid 3 2) (0, 0) (1, 0) [] [(0, 0), (1, 0)]"
proof -
  let ?e0 = "(0, 0, (0, 0), [(0, 0)]) :: entry"
  let ?e1 = "(1, 1, (1, 0), [(0, 0), (1, 0)]) :: entry"
  let ?e2 = "(3, 2, (0, 1), [(0, 0), (0, 1)]) :: entry"
  have grown: "expand (open_grid 3 2) (1, 0) [] {(0, 0)} (0, 0) [(0, 0)] ([], 0) = ([?e1, ?e2], 2)"
    by (simp add: expand_def neighbors_def push_neighbor_def in_bounds_def is_obstacle_def
        open_grid_def heuristic_def)
  have rest: "queue_loop (open_grid 3 2) (1, 0) [] [?e1, ?e2] {(0, 0)} 2 (e_path ?e1)"
    by (rule queue_loop.arrived) (simp_all add: least_key_def key_def e_counter_def e_pos_def)
  have "queue_loop (open_grid 3 2) (1, 0) [] [?e0] {} 0 (e_path ?e1)"
  proof (rule queue_loop.expanded [where e = ?e0])
    show "least_key [?e0] ?e0" by (simp add: least_key_def)
    show "e_pos ?e0 \<noteq> (1, 0)" by (simp add: e_pos_def)
    show "e_pos ?e0 \<notin> {}" by simp
    show "queue_loop (open_grid 3 2) (1, 0) []
            (fst (expand (open_grid 3 2) (1, 0) [] (insert (e_pos ?e0) {}) (e_pos ?e0)
                    (e_path ?e0) (remove1 ?e0 [?e0], 0)))
            (insert (e_pos ?e0) {})
            (snd (expand (open_grid 3 2) (1, 0) [] (insert (e_pos ?e0) {}) (e_pos ?e0)
                    (e_path ?e0) (remove1 ?e0 [?e0], 0)))
            (e_path ?e1)"
      using rest by (simp add: e_pos_def e_path_def grown)
  qed
  then show ?thesis by (simp add: queue_astar_def e_path_def)
qed

theorem search_result_is_unique_witness:
  "queue_astar (open_grid 3 2) (0, 0) (1, 0) [] [(0, 0), (1, 0)]
   \<and> queue_astar (open_grid 3 2) (0, 0) (1, 0) [] (astar (open_grid 3 2) (0, 0) (1, 0) [])
   \<and> [(0, 0), (1, 0)] = astar (open_grid 3 2) (0, 0) (1, 0) []"
  using search_result_is_unique [OF short_run astar_is_queue_astar] short_run astar_is_queue_astar
  by simp

subsection \<open>The dispatcher's backlog\<close>

lemma reachable_tiny: "reachable tiny"
proof -
  have "WarehouseModel_init 3 2 1 tiny_layout [] = Inr tiny" by code_simp
  then show ?thesis by (rule reachable.built)
qed






subsection \<open>Battery bounds\<close>

lemma agv_step_length:
  assumes "i < length (agvs m)" and "agv_step i m = Inr m'"
  shows "length (agvs m') = length (agvs m)"
proof -
  from agv_step_agvs [OF assms]
  have "length (map pos (agvs m')) = length (map pos (agvs m))"
    by (elim disjE conjE) simp_all
  then show ?thesis by simp
qed

text \<open>
  C8. At all times the battery level of every vehicle lies between 0 and 100: it does in
  every state the program reaches. And in a state where it does, the action of a vehicle
  keeps it so, leaves the vehicle's battery level no higher if the vehicle moved (its
  position changed), and no lower if the vehicle charged (it was CHARGING on a cell with
  a charging station).
\<close>

theorem battery_stays_in_range:
  "(reachable m \<longrightarrow> battery_in_range m)
   \<and> (battery_in_range m \<and> i < length (agvs m) \<and> agv_step i m = Inr m' \<longrightarrow>
        battery_in_range m'
        \<and> (pos (agvs m' ! i) \<noteq> pos (agvs m ! i)
             \<longrightarrow> battery_level (agvs m' ! i) \<le> battery_level (agvs m ! i))
        \<and> (state (agvs m ! i) = CHARGING \<and> at_station i m
             \<longrightarrow> battery_level (agvs m ! i) \<le> battery_level (agvs m' ! i)))"
proof (intro conjI impI)
  assume "reachable m"
  then show "battery_in_range m" by (rule reachable_battery_in_range)
next
  assume h: "battery_in_range m \<and> i < length (agvs m) \<and> agv_step i m = Inr m'"
  then have inr: "battery_in_range m" and i: "i < length (agvs m)"
    and run: "agv_step i m = Inr m'" by simp_all
  from inr i run show "battery_in_range m'" by (rule agv_step_battery_in_range)
  from inr i have b: "0 \<le> battery_level (agvs m ! i)" "battery_level (agvs m ! i) \<le> 100"
    by (simp_all add: battery_in_range_def list_all_length)
  have i': "i < length (agvs m')" using i agv_step_length [OF i run] by simp
  have nth: "pos (agvs n ! i) = map pos (agvs n) ! i"
      "battery_level (agvs n ! i) = map battery_level (agvs n) ! i"
    if "i < length (agvs n)" for n
    using that by simp_all
  {
    assume moved: "pos (agvs m' ! i) \<noteq> pos (agvs m ! i)"
    from agv_step_agvs [OF i run] moved
    have "map battery_level (agvs m')
            = (map battery_level (agvs m))
                [i := max 0 (battery_level (agvs m ! i) - battery_drain_rate)]"
      unfolding nth [OF i] nth [OF i'] by (elim disjE conjE) simp_all
    then have "battery_level (agvs m' ! i) = max 0 (battery_level (agvs m ! i) - battery_drain_rate)"
      unfolding nth [OF i'] using i by simp
    with b show "battery_level (agvs m' ! i) \<le> battery_level (agvs m ! i)"
      by (simp add: battery_drain_rate_def)
  next
    assume charging: "state (agvs m ! i) = CHARGING \<and> at_station i m"
    from agv_step_agvs [OF i run] charging
    have "map battery_level (agvs m') = map battery_level (agvs m)
          \<or> map battery_level (agvs m')
            = (map battery_level (agvs m))
                [i := min 100 (battery_level (agvs m ! i) + battery_charge_rate)]"
      by (elim disjE conjE) simp_all
    then have "battery_level (agvs m' ! i) = battery_level (agvs m ! i)
          \<or> battery_level (agvs m' ! i) = min 100 (battery_level (agvs m ! i) + battery_charge_rate)"
      unfolding nth [OF i'] nth(2) [OF i] using i by auto
    with b show "battery_level (agvs m ! i) \<le> battery_level (agvs m' ! i)"
      by (auto simp: battery_charge_rate_def)
  }
qed

theorem battery_stays_in_range_witness:
  "reachable tiny \<and> battery_in_range tiny
   \<and> battery_in_range rolling \<and> 0 < length (agvs rolling)
   \<and> agv_step 0 rolling
       = Inr (floor_model [parked\<lparr>pos := (1, 0), battery_level := 99.5, state := DELIVERING,
                                  task := Some errand, path := [(2, 0)]\<rparr>])
   \<and> pos (agvs (floor_model [parked\<lparr>pos := (1, 0), battery_level := 99.5,
                               state := DELIVERING, task := Some errand,
                               path := [(2, 0)]\<rparr>]) ! 0) \<noteq> pos (agvs rolling ! 0)
   \<and> battery_level (agvs (floor_model [parked\<lparr>pos := (1, 0), battery_level := 99.5,
                               state := DELIVERING, task := Some errand,
                               path := [(2, 0)]\<rparr>]) ! 0) \<le> battery_level (agvs rolling ! 0)
   \<and> battery_in_range plugged_in \<and> 0 < length (agvs plugged_in)
   \<and> agv_step 0 plugged_in
       = Inr (plugged_in\<lparr>agvs := [parked\<lparr>battery_level := 55, state := CHARGING\<rparr>]\<rparr>)
   \<and> state (agvs plugged_in ! 0) = CHARGING \<and> at_station 0 plugged_in
   \<and> battery_level (agvs plugged_in ! 0)
       \<le> battery_level
           (agvs (plugged_in\<lparr>agvs := [parked\<lparr>battery_level := 55, state := CHARGING\<rparr>]\<rparr>) ! 0)"
proof -
  let ?rolled = "floor_model [parked\<lparr>pos := (1, 0), battery_level := 99.5, state := DELIVERING,
                                  task := Some errand, path := [(2, 0)]\<rparr>]"
  let ?charged = "plugged_in\<lparr>agvs := [parked\<lparr>battery_level := 55, state := CHARGING\<rparr>]\<rparr>"
  have r1: "battery_in_range rolling" by code_simp
  have r2: "0 < length (agvs rolling)" by code_simp
  have r3: "agv_step 0 rolling = Inr ?rolled" by code_simp
  have r4: "pos (agvs ?rolled ! 0) \<noteq> pos (agvs rolling ! 0)" by code_simp
  have p1: "battery_in_range plugged_in" by code_simp
  have p2: "0 < length (agvs plugged_in)" by code_simp
  have p3: "agv_step 0 plugged_in = Inr ?charged" by code_simp
  have p4: "state (agvs plugged_in ! 0) = CHARGING \<and> at_station 0 plugged_in" by code_simp
  from battery_stays_in_range [of tiny 0 tiny] reachable_tiny
  have a: "battery_in_range tiny" by blast
  from battery_stays_in_range [of rolling 0 ?rolled] r1 r2 r3 r4
  have b: "battery_level (agvs ?rolled ! 0) \<le> battery_level (agvs rolling ! 0)" by blast
  from battery_stays_in_range [of plugged_in 0 ?charged] p1 p2 p3 p4
  have c: "battery_level (agvs plugged_in ! 0) \<le> battery_level (agvs ?charged ! 0)" by blast
  from reachable_tiny a r1 r2 r3 r4 b p1 p2 p3 p4 c show ?thesis by blast
qed

subsection \<open>Occupancy\<close>

lemma count_update_le:
  "length (filter (\<lambda>p. p = c) (xs[i := v]))
     \<le> length (filter (\<lambda>p. p = c) xs) + (if c = v then 1 else 0)"
proof (induction xs arbitrary: i)
  case Nil
  show ?case by simp
next
  case (Cons x xs)
  show ?case
  proof (cases i)
    case 0
    then show ?thesis by simp
  next
    case (Suc j)
    with Cons.IH [of j] show ?thesis by (simp split: if_splits)
  qed
qed

lemma vehicles_at_split:
  "vehicles_at m c
     = length (filter (\<lambda>agent. agent = AGVAgent) (map fst (filter (\<lambda>a. snd a = c) (statics m))))
       + length (filter (\<lambda>p. p = c) (map pos (agvs m)))"
proof -
  have "filter (\<lambda>agent. agent = AGVAgent) (map (\<lambda>p. AGVAgent) ps) = map (\<lambda>p. AGVAgent) ps"
    for ps :: "cell list"
    by (induction ps) simp_all
  then show ?thesis
    by (simp add: vehicles_at_def cell_list_def vehicles_filter_pos)
qed

lemma agv_step_no_double_occupancy:
  assumes "no_double_occupancy m" and "i < length (agvs m)" and "agv_step i m = Inr m'"
  shows "no_double_occupancy m'"
proof -
  have frame: "statics m' = statics m" "width m' = width m" "height m' = height m"
    using agv_step_frame [OF assms(3)] by simp_all
  then have cells_eq: "all_cells (grid_of m') = all_cells (grid_of m)"
    by (simp add: all_cells_def grid_of_def)
  have "vehicles_at m' c \<le> 1" if c: "c \<in> set (all_cells (grid_of m))" for c
  proof -
    from assms(1) c have old: "vehicles_at m c \<le> 1"
      by (simp add: no_double_occupancy_def list_all_iff)
    let ?v = "hd (path (agvs m ! i))"
    from agv_step_agvs [OF assms(2,3)]
    have "map pos (agvs m') = map pos (agvs m)
          \<or> (vehicles_at m ?v = 0 \<and> map pos (agvs m') = (map pos (agvs m))[i := ?v])"
      by (elim disjE conjE) simp_all
    then show ?thesis
    proof (elim disjE conjE)
      assume "map pos (agvs m') = map pos (agvs m)"
      with old show ?thesis by (simp add: vehicles_at_split frame)
    next
      assume free: "vehicles_at m ?v = 0"
        and moved: "map pos (agvs m') = (map pos (agvs m))[i := ?v]"
      have le: "vehicles_at m' c \<le> vehicles_at m c + (if c = ?v then 1 else 0)"
        using count_update_le [of c "map pos (agvs m)" i ?v]
        by (simp add: vehicles_at_split frame moved)
      show ?thesis
      proof (cases "c = ?v")
        case True
        with le free show ?thesis by simp
      next
        case False
        with le old show ?thesis by simp
      qed
    qed
  qed
  then show ?thesis
    by (simp add: no_double_occupancy_def list_all_iff cells_eq)
qed

lemma shuffle_do_no_double_occupancy:
  assumes "no_double_occupancy m" and "list_all (\<lambda>i. i < length (agvs m)) order"
    and "shuffle_do order m = Inr m'"
  shows "no_double_occupancy m'"
  using assms
proof (induction order arbitrary: m)
  case Nil
  then show ?case by simp
next
  case (Cons i order)
  from Cons.prems(3) obtain m1 where first: "agv_step i m = Inr m1"
    and rest: "shuffle_do order m1 = Inr m'"
    by (auto split: sum.splits)
  from Cons.prems(2) have i: "i < length (agvs m)" by simp
  have "no_double_occupancy m1"
    using Cons.prems(1) i first by (rule agv_step_no_double_occupancy)
  moreover have "list_all (\<lambda>i. i < length (agvs m1)) order"
    using Cons.prems(2) agv_step_length [OF i first] by simp
  ultimately show ?case using rest by (rule Cons.IH)
qed

text \<open>
  C7. If no cell of the grid holds more than one vehicle, then after a call of \<open>step\<close>,
  which runs the action of every vehicle of the drawn order in turn and no hook, again no
  cell of the grid holds more than one vehicle.
\<close>

theorem no_double_occupancy_after_step:
  assumes "no_double_occupancy m"
    and "list_all (\<lambda>i. i < length (agvs m)) order"
    and "step order m = Inr m'"
  shows "no_double_occupancy m'"
  using assms unfolding step_def by (rule shuffle_do_no_double_occupancy)

theorem no_double_occupancy_after_step_witness:
  "no_double_occupancy crossing
   \<and> list_all (\<lambda>i. i < length (agvs crossing)) [0, 1]
   \<and> step [0, 1] crossing
       = Inr (floor_model
                [parked\<lparr>pos := (1, 0), battery_level := 99.5\<rparr>,
                 parked\<lparr>pos := (2, 0), state := WAITING, task := Some errand,
                        path := [(1, 0)], steps_waiting := 1\<rparr>])
   \<and> no_double_occupancy
       (floor_model
          [parked\<lparr>pos := (1, 0), battery_level := 99.5\<rparr>,
           parked\<lparr>pos := (2, 0), state := WAITING, task := Some errand,
                  path := [(1, 0)], steps_waiting := 1\<rparr>])"
proof -
  have h1: "no_double_occupancy crossing" by code_simp
  have h2: "list_all (\<lambda>i. i < length (agvs crossing)) [0, 1]" by code_simp
  have h3: "step [0, 1] crossing
       = Inr (floor_model
                [parked\<lparr>pos := (1, 0), battery_level := 99.5\<rparr>,
                 parked\<lparr>pos := (2, 0), state := WAITING, task := Some errand,
                        path := [(1, 0)], steps_waiting := 1\<rparr>])" by code_simp
  from no_double_occupancy_after_step [OF h1 h2 h3] h1 h2 h3 show ?thesis by simp
qed

subsection \<open>Replenishing the backlog\<close>








end
